theory Spec2Isabelle
  imports Main "HOL-Library.Word"
begin

section \<open>Values, options and errors\<close>

text \<open>
  The adapter of \<^verbatim>\<open>src/index.ts\<close> is two classes, \<^verbatim>\<open>AudioInput\<close> (a Readable) and
  \<^verbatim>\<open>AudioOutput\<close> (a Writable), each holding one instance of the native binding in its
  field \<^verbatim>\<open>audio\<close>. Every method forwards to that instance; the only logic of the
  adapter sits in the arrow functions it hands to the binding as completion handlers.

  A chunk of audio is a Node \<^verbatim>\<open>Buffer\<close>: a sequence of bytes.
\<close>

type_synonym buffer = "8 word list"

text \<open>
  Callback arguments are optional and untyped at run time (\<^verbatim>\<open>cb?: AudioCallback\<close>, tested
  with \<^verbatim>\<open>cb && typeof cb === "function"\<close>), so they are JavaScript values. A function
  supplied by the caller is opaque; it is identified by a number, and calling it is
  recorded in the log \<open>invoked\<close> of the state.
\<close>

datatype jsval =
    JUndefined
  | JNull
  | JBool bool
  | JNum int
  | JStr string
  | JError string
  | JFunction nat

text \<open>JavaScript's \<^verbatim>\<open>ToBoolean\<close>, as used by \<^verbatim>\<open>!err\<close> and \<^verbatim>\<open>cb && ...\<close>.\<close>

fun truthy :: "jsval \<Rightarrow> bool" where
  "truthy JUndefined = False"
| "truthy JNull = False"
| "truthy (JBool b) = b"
| "truthy (JNum n) = (n \<noteq> 0)"
| "truthy (JStr s) = (s \<noteq> [])"
| "truthy (JError m) = True"
| "truthy (JFunction k) = True"

text \<open>JavaScript's \<^verbatim>\<open>typeof\<close>.\<close>

fun typeof :: "jsval \<Rightarrow> string" where
  "typeof JUndefined = ''undefined''"
| "typeof JNull = ''object''"
| "typeof (JBool b) = ''boolean''"
| "typeof (JNum n) = ''number''"
| "typeof (JStr s) = ''string''"
| "typeof (JError m) = ''object''"
| "typeof (JFunction k) = ''function''"

text \<open>The interface \<^verbatim>\<open>AudioOptions\<close>: four optional numbers.\<close>

record AudioOptions =
  deviceId :: "int option"
  sampleRate :: "int option"
  channelCount :: "int option"
  sampleFormat :: "int option"

definition SampleFormat8Bit :: int where "SampleFormat8Bit = 8"
definition SampleFormat16Bit :: int where "SampleFormat16Bit = 16"
definition SampleFormat24Bit :: int where "SampleFormat24Bit = 24"
definition SampleFormat32Bit :: int where "SampleFormat32Bit = 32"

text \<open>
  What can be thrown: a \<^verbatim>\<open>TypeError\<close> when a value that is not a function is called, and
  the failure of the binding's constructor on a configuration it rejects.
\<close>

datatype error = TypeError | InvalidConfiguration string

section \<open>The native binding\<close>

text \<open>
  The functions the adapter creates and passes on as completion handlers:
  \<^item> \<open>Passed v\<close>: the value \<open>v\<close> the caller gave as \<^verbatim>\<open>cb\<close>, handed on as it is
    (\<^verbatim>\<open>this.audio.write(chunk, cb)\<close>);
  \<^item> \<open>NoopArrow\<close>: the default \<^verbatim>\<open>() => undefined\<close> of \<^verbatim>\<open>write\<close>;
  \<^item> \<open>ReadArrow\<close>: \<^verbatim>\<open>(err, buf) => { if (!err) { this.push(buf); } }\<close> of \<^verbatim>\<open>_read\<close>;
  \<^item> \<open>QuitArrow cb\<close>: \<^verbatim>\<open>() => { if (cb && typeof cb === "function") { cb(); } }\<close> of
    \<^verbatim>\<open>quit\<close>, closed over its argument \<^verbatim>\<open>cb\<close>.
\<close>

datatype handler =
    Passed jsval
  | NoopArrow
  | ReadArrow
  | QuitArrow jsval

text \<open>The requests an instance of the binding receives.\<close>

datatype engine_call =
    ERead int handler
  | EWrite buffer handler
  | EStart
  | EAbort
  | EQuit handler

text \<open>
  Modelled from the spec: the native binding \<^verbatim>\<open>node_pa.node\<close> (\<^verbatim>\<open>NodePA.AudioIn\<close>,
  \<^verbatim>\<open>NodePA.AudioOut\<close>) is compiled code that is not among the sources. The spec gives
  its interface only: \<^verbatim>\<open>read\<close>, \<^verbatim>\<open>write\<close> and \<^verbatim>\<open>quit\<close> are asynchronous with a single
  completion notification per operation, \<^verbatim>\<open>start\<close> and \<^verbatim>\<open>abort\<close> are synchronous. An
  instance is modelled by the configuration it was opened with, the log \<open>calls\<close> of the
  requests it received, in order, and the asynchronous requests \<open>pending\<close>: those whose
  completion handler it has not invoked yet (the outstanding operations). When, in
  which order and whether the binding completes a pending request is left open.
\<close>

record engine =
  config :: AudioOptions
  calls :: "engine_call list"
  pending :: "engine_call list"

text \<open>
  Modelled from the spec: the methods \<^verbatim>\<open>read\<close>, \<^verbatim>\<open>write\<close>, \<^verbatim>\<open>start\<close>, \<^verbatim>\<open>abort\<close> and \<^verbatim>\<open>quit\<close> of
  the binding, which is not among the sources. Each records the request it receives;
  the asynchronous ones keep it pending with its completion handler.
\<close>

definition engine_read :: "int \<Rightarrow> handler \<Rightarrow> engine \<Rightarrow> engine" where
  "engine_read n h a =
     a\<lparr>calls := calls a @ [ERead n h], pending := pending a @ [ERead n h]\<rparr>"

definition engine_write :: "buffer \<Rightarrow> handler \<Rightarrow> engine \<Rightarrow> engine" where
  "engine_write chunk h a =
     a\<lparr>calls := calls a @ [EWrite chunk h], pending := pending a @ [EWrite chunk h]\<rparr>"

definition engine_start :: "engine \<Rightarrow> engine" where
  "engine_start a = a\<lparr>calls := calls a @ [EStart]\<rparr>"

definition engine_abort :: "engine \<Rightarrow> engine" where
  "engine_abort a = a\<lparr>calls := calls a @ [EAbort]\<rparr>"

definition engine_quit :: "handler \<Rightarrow> engine \<Rightarrow> engine" where
  "engine_quit h a =
     a\<lparr>calls := calls a @ [EQuit h], pending := pending a @ [EQuit h]\<rparr>"

text \<open>The completion handler of a request (the synchronous requests have none).\<close>

fun handler_of :: "engine_call \<Rightarrow> handler option" where
  "handler_of (ERead n h) = Some h"
| "handler_of (EWrite chunk h) = Some h"
| "handler_of (EQuit h) = Some h"
| "handler_of EStart = None"
| "handler_of EAbort = None"

text \<open>
  Modelled from the spec: the binding completes the pending request at position \<open>i\<close>.
  The request leaves \<open>pending\<close> (one completion per operation) and its handler is
  returned to be called.
\<close>

definition engine_complete :: "nat \<Rightarrow> engine \<Rightarrow> (handler \<times> engine) option" where
  "engine_complete i a =
     (if i < length (pending a) then
        (case handler_of (pending a ! i) of
           None \<Rightarrow> None
         | Some h \<Rightarrow> Some (h, a\<lparr>pending := take i (pending a) @ drop (Suc i) (pending a)\<rparr>))
      else None)"

text \<open>
  Modelled from the spec: which configurations the binding accepts; the checks are in
  the binding, which is not among the sources. Section 3 of the spec: the sample
  format, when given, must be one of the four recognised widths, and the device id,
  when given and not the default sentinel -1, must be one of the enumerated devices
  (\<open>devices\<close>, what \<^verbatim>\<open>getDevices\<close> lists).
\<close>

definition sampleFormat_ok :: "AudioOptions \<Rightarrow> bool" where
  "sampleFormat_ok opts =
     (case sampleFormat opts of
        None \<Rightarrow> True
      | Some f \<Rightarrow> f \<in> {SampleFormat8Bit, SampleFormat16Bit, SampleFormat24Bit, SampleFormat32Bit})"

definition deviceId_ok :: "int list \<Rightarrow> AudioOptions \<Rightarrow> bool" where
  "deviceId_ok devices opts =
     (case deviceId opts of
        None \<Rightarrow> True
      | Some d \<Rightarrow> d = -1 \<or> d \<in> set devices)"

text \<open>
  Modelled from the spec: the constructors \<^verbatim>\<open>new NodePA.AudioIn(options)\<close> and
  \<^verbatim>\<open>new NodePA.AudioOut(options)\<close> of the binding, which are not among the sources.
  Section 7 of the spec: an invalid configuration is a hard failure at construction;
  otherwise the handle is returned, with no request received yet.
\<close>

definition NodePA_open :: "int list \<Rightarrow> AudioOptions \<Rightarrow> error + engine" where
  "NodePA_open devices opts =
     (if \<not> sampleFormat_ok opts then Inl (InvalidConfiguration ''sampleFormat'')
      else if \<not> deviceId_ok devices opts then Inl (InvalidConfiguration ''deviceId'')
      else Inr \<lparr>config = opts, calls = [], pending = []\<rparr>)"

definition NodePA_AudioIn :: "int list \<Rightarrow> AudioOptions \<Rightarrow> error + engine" where
  "NodePA_AudioIn = NodePA_open"

definition NodePA_AudioOut :: "int list \<Rightarrow> AudioOptions \<Rightarrow> error + engine" where
  "NodePA_AudioOut = NodePA_open"

section \<open>The adapter objects\<close>

text \<open>
  The state of one adapter object and of what it acts on:
  \<^item> \<open>audio\<close>: the field \<^verbatim>\<open>this.audio\<close>;
  \<^item> \<open>highWaterMark\<close>, \<open>objectMode\<close>, \<open>decodeStrings\<close>: the options given to \<^verbatim>\<open>super\<close>
    (\<^verbatim>\<open>AudioInput\<close> gives no \<^verbatim>\<open>decodeStrings\<close>);
  \<^item> \<open>queue\<close>: the internal buffer of the Readable, the chunks given to \<^verbatim>\<open>this.push\<close>
    that await the consumer (used by \<^verbatim>\<open>AudioInput\<close>);
  \<^item> \<open>listeners\<close>: the listeners registered with \<^verbatim>\<open>this.on\<close>, by event name;
  \<^item> \<open>invoked\<close>: the caller's functions that have been called so far, in order.
\<close>

datatype listener = BoundQuit

record adapter =
  audio :: engine
  highWaterMark :: nat
  objectMode :: bool
  decodeStrings :: "bool option"
  queue :: "buffer list"
  listeners :: "(string \<times> listener) list"
  invoked :: "nat list"

text \<open>
  \<^verbatim>\<open>Readable.push(buf)\<close> and \<^verbatim>\<open>EventEmitter.on(name, fn)\<close> are inherited from Node's
  stream library. \<open>push\<close> appends the chunk to the internal buffer; a stream that is
  not in object mode adds nothing for an empty chunk. \<open>on\<close> appends the listener to
  those of the event.
\<close>

definition push :: "buffer \<Rightarrow> adapter \<Rightarrow> adapter" where
  "push buf s = (if objectMode s \<or> buf \<noteq> [] then s\<lparr>queue := queue s @ [buf]\<rparr> else s)"

definition on :: "string \<Rightarrow> listener \<Rightarrow> adapter \<Rightarrow> adapter" where
  "on name l s = s\<lparr>listeners := listeners s @ [(name, l)]\<rparr>"

text \<open>Calling a value: a caller's function runs (and is recorded), anything else throws.\<close>

fun call_value :: "jsval \<Rightarrow> adapter \<Rightarrow> error + adapter" where
  "call_value (JFunction k) s = Inr (s\<lparr>invoked := invoked s @ [k]\<rparr>)"
| "call_value v s = Inl TypeError"

text \<open>
  The binding calls a completion handler with an error value and a buffer; the handlers
  that take no parameters ignore both.
\<close>

fun call_handler :: "handler \<Rightarrow> jsval \<Rightarrow> buffer \<Rightarrow> adapter \<Rightarrow> error + adapter" where
  "call_handler (Passed cb) err buf s = call_value cb s"
| "call_handler NoopArrow err buf s = Inr s"
| "call_handler ReadArrow err buf s = (if \<not> truthy err then Inr (push buf s) else Inr s)"
| "call_handler (QuitArrow cb) err buf s =
     (if truthy cb \<and> typeof cb = ''function'' then call_value cb s else Inr s)"

subsection \<open>AudioInput\<close>

definition AudioInput_new :: "int list \<Rightarrow> AudioOptions \<Rightarrow> error + adapter" where
  "AudioInput_new devices options =
     (case NodePA_AudioIn devices options of
        Inl e \<Rightarrow> Inl e
      | Inr a \<Rightarrow>
          Inr \<lparr>audio = a, highWaterMark = 16384, objectMode = False, decodeStrings = None,
               queue = [], listeners = [], invoked = []\<rparr>)"

text \<open>\<^verbatim>\<open>_read(size: number = 1024)\<close>: \<open>None\<close> is the omitted (undefined) argument.\<close>

definition AudioInput_read :: "int option \<Rightarrow> adapter \<Rightarrow> adapter" where
  "AudioInput_read sz s =
     s\<lparr>audio := engine_read (case sz of None \<Rightarrow> 1024 | Some n \<Rightarrow> n) ReadArrow (audio s)\<rparr>"

definition AudioInput_start :: "adapter \<Rightarrow> adapter" where
  "AudioInput_start s = s\<lparr>audio := engine_start (audio s)\<rparr>"

definition AudioInput_abort :: "adapter \<Rightarrow> adapter" where
  "AudioInput_abort s = s\<lparr>audio := engine_abort (audio s)\<rparr>"

definition AudioInput_quit :: "jsval \<Rightarrow> adapter \<Rightarrow> adapter" where
  "AudioInput_quit cb s = s\<lparr>audio := engine_quit (QuitArrow cb) (audio s)\<rparr>"

subsection \<open>AudioOutput\<close>

definition AudioOutput_new :: "int list \<Rightarrow> AudioOptions \<Rightarrow> error + adapter" where
  "AudioOutput_new devices options =
     (case NodePA_AudioOut devices options of
        Inl e \<Rightarrow> Inl e
      | Inr a \<Rightarrow>
          Inr (on ''finish'' BoundQuit
                 \<lparr>audio = a, highWaterMark = 16384, objectMode = False, decodeStrings = Some False,
                  queue = [], listeners = [], invoked = []\<rparr>))"

text \<open>
  \<^verbatim>\<open>write(chunk, encoding?, cb = (() => undefined))\<close>: the default applies when \<^verbatim>\<open>cb\<close> is
  undefined. The result is the returned flag and the new state.
\<close>

definition AudioOutput_write :: "buffer \<Rightarrow> jsval \<Rightarrow> jsval \<Rightarrow> adapter \<Rightarrow> bool \<times> adapter" where
  "AudioOutput_write chunk encoding cb s =
     (True,
      s\<lparr>audio := engine_write chunk (if cb = JUndefined then NoopArrow else Passed cb) (audio s)\<rparr>)"

definition AudioOutput_start :: "adapter \<Rightarrow> adapter" where
  "AudioOutput_start s = s\<lparr>audio := engine_start (audio s)\<rparr>"

definition AudioOutput_abort :: "adapter \<Rightarrow> adapter" where
  "AudioOutput_abort s = s\<lparr>audio := engine_abort (audio s)\<rparr>"

definition AudioOutput_quit :: "jsval \<Rightarrow> adapter \<Rightarrow> adapter" where
  "AudioOutput_quit cb s = s\<lparr>audio := engine_quit (QuitArrow cb) (audio s)\<rparr>"

text \<open>
  \<^verbatim>\<open>this.quit.bind(this)\<close>, called with the arguments of the event: \<open>quit\<close> gets the first
  one, or undefined when there is none.
\<close>

fun call_listener :: "listener \<Rightarrow> jsval list \<Rightarrow> adapter \<Rightarrow> adapter" where
  "call_listener BoundQuit [] s = AudioOutput_quit JUndefined s"
| "call_listener BoundQuit (v # vs) s = AudioOutput_quit v s"

text \<open>\<^verbatim>\<open>emit(name, ...args)\<close> of the EventEmitter: the listeners of the event, in order.\<close>

fun emit :: "string \<Rightarrow> jsval list \<Rightarrow> (string \<times> listener) list \<Rightarrow> adapter \<Rightarrow> adapter" where
  "emit name args [] s = s"
| "emit name args ((n, l) # ls) s =
     emit name args ls (if n = name then call_listener l args s else s)"

section \<open>Runs\<close>

text \<open>
  What can happen to an adapter object: the consumer or producer calls one of its
  methods, the Writable emits \<^verbatim>\<open>finish\<close> (end of supply), or the binding completes the
  pending request at some position, calling its handler with an error value and a buffer.
\<close>

datatype in_event =
    Pull "int option"
  | InStart
  | InAbort
  | InQuit jsval
  | InComplete nat jsval buffer

datatype out_event =
    Push buffer jsval jsval
  | OutStart
  | OutAbort
  | OutQuit jsval
  | Finish
  | OutComplete nat jsval buffer

definition complete :: "nat \<Rightarrow> jsval \<Rightarrow> buffer \<Rightarrow> adapter \<Rightarrow> error + adapter" where
  "complete i err buf s =
     (case engine_complete i (audio s) of
        None \<Rightarrow> Inr s
      | Some (h, a) \<Rightarrow> call_handler h err buf (s\<lparr>audio := a\<rparr>))"

fun in_step :: "in_event \<Rightarrow> adapter \<Rightarrow> error + adapter" where
  "in_step (Pull sz) s = Inr (AudioInput_read sz s)"
| "in_step InStart s = Inr (AudioInput_start s)"
| "in_step InAbort s = Inr (AudioInput_abort s)"
| "in_step (InQuit cb) s = Inr (AudioInput_quit cb s)"
| "in_step (InComplete i err buf) s = complete i err buf s"

fun out_step :: "out_event \<Rightarrow> adapter \<Rightarrow> error + adapter" where
  "out_step (Push chunk encoding cb) s = Inr (snd (AudioOutput_write chunk encoding cb s))"
| "out_step OutStart s = Inr (AudioOutput_start s)"
| "out_step OutAbort s = Inr (AudioOutput_abort s)"
| "out_step (OutQuit cb) s = Inr (AudioOutput_quit cb s)"
| "out_step Finish s = Inr (emit ''finish'' [] (listeners s) s)"
| "out_step (OutComplete i err buf) s = complete i err buf s"

text \<open>A run stops at the first uncaught error.\<close>

fun in_run :: "in_event list \<Rightarrow> adapter \<Rightarrow> error + adapter" where
  "in_run [] s = Inr s"
| "in_run (e # es) s = (case in_step e s of Inl x \<Rightarrow> Inl x | Inr s' \<Rightarrow> in_run es s')"

fun out_run :: "out_event list \<Rightarrow> adapter \<Rightarrow> error + adapter" where
  "out_run [] s = Inr s"
| "out_run (e # es) s = (case out_step e s of Inl x \<Rightarrow> Inl x | Inr s' \<Rightarrow> out_run es s')"

section \<open>What a run shows\<close>

text \<open>The chunks of the write requests in a log of the binding, in order.\<close>

fun written :: "engine_call list \<Rightarrow> buffer list" where
  "written [] = []"
| "written (EWrite chunk h # cs) = chunk # written cs"
| "written (c # cs) = written cs"

text \<open>The chunks given to \<^verbatim>\<open>write\<close> in a run, in order.\<close>

fun pushed :: "out_event list \<Rightarrow> buffer list" where
  "pushed [] = []"
| "pushed (Push chunk encoding cb # es) = chunk # pushed es"
| "pushed (e # es) = pushed es"

text \<open>A run that only calls \<^verbatim>\<open>write\<close>, once for each triple of arguments.\<close>

fun pushes :: "(buffer \<times> jsval \<times> jsval) list \<Rightarrow> out_event list" where
  "pushes [] = []"
| "pushes ((chunk, encoding, cb) # ps) = Push chunk encoding cb # pushes ps"

text \<open>The write requests that are outstanding: submitted and not completed.\<close>

fun is_write :: "engine_call \<Rightarrow> bool" where
  "is_write (EWrite chunk h) = True"
| "is_write c = False"

definition outstanding_writes :: "engine \<Rightarrow> nat" where
  "outstanding_writes a = length (filter is_write (pending a))"

text \<open>
  The caller's function \<open>k\<close> is what a handler calls when it runs; a pending request
  awaits it; \<open>waiting\<close> counts the pending requests that do, \<open>called\<close> the calls of
  \<open>k\<close> made so far; an event registers \<open>k\<close> when it passes it as \<^verbatim>\<open>cb\<close>.
\<close>

fun notifies :: "nat \<Rightarrow> handler \<Rightarrow> bool" where
  "notifies k (Passed (JFunction j)) = (j = k)"
| "notifies k (QuitArrow (JFunction j)) = (j = k)"
| "notifies k h = False"

fun awaits :: "nat \<Rightarrow> engine_call \<Rightarrow> bool" where
  "awaits k (ERead n h) = notifies k h"
| "awaits k (EWrite chunk h) = notifies k h"
| "awaits k (EQuit h) = notifies k h"
| "awaits k c = False"

definition waiting :: "nat \<Rightarrow> adapter \<Rightarrow> nat" where
  "waiting k s = length (filter (awaits k) (pending (audio s)))"

definition called :: "nat \<Rightarrow> adapter \<Rightarrow> nat" where
  "called k s = count_list (invoked s) k"

fun in_registers :: "nat \<Rightarrow> in_event \<Rightarrow> bool" where
  "in_registers k (InQuit cb) = (cb = JFunction k)"
| "in_registers k e = False"

fun out_registers :: "nat \<Rightarrow> out_event \<Rightarrow> bool" where
  "out_registers k (OutQuit cb) = (cb = JFunction k)"
| "out_registers k (Push chunk encoding cb) = (cb = JFunction k)"
| "out_registers k e = False"

text \<open>
  Pulls served one at a time: each triple is a pull with its size hint and the error
  value and buffer its read completes with, before the next pull is made. The request
  expected for a pull, and the buffers expected in the queue of a stream that is not
  in object mode: those of the reads without error, the empty ones left out.
\<close>

fun served :: "(int option \<times> jsval \<times> buffer) list \<Rightarrow> in_event list" where
  "served [] = []"
| "served ((sz, err, buf) # ps) = Pull sz # InComplete 0 err buf # served ps"

fun requested :: "int option \<times> jsval \<times> buffer \<Rightarrow> engine_call" where
  "requested (None, err, buf) = ERead 1024 ReadArrow"
| "requested (Some n, err, buf) = ERead n ReadArrow"

fun delivered :: "(int option \<times> jsval \<times> buffer) list \<Rightarrow> buffer list" where
  "delivered [] = []"
| "delivered ((sz, err, buf) # ps) =
     (if truthy err \<or> buf = [] then delivered ps else buf # delivered ps)"

text \<open>
  Two states that differ at most in the abort requests of the binding's log: the same
  mode, queue, calls of the caller's functions, listeners and pending requests, and the
  same log once the abort requests are left out.
\<close>

definition without_abort :: "engine_call list \<Rightarrow> engine_call list" where
  "without_abort cs = filter (\<lambda>c. c \<noteq> EAbort) cs"

definition same_but_aborts :: "adapter \<Rightarrow> adapter \<Rightarrow> bool" where
  "same_but_aborts s t \<longleftrightarrow>
     objectMode s = objectMode t \<and>
     queue s = queue t \<and> invoked s = invoked t \<and> listeners s = listeners t \<and>
     pending (audio s) = pending (audio t) \<and>
     without_abort (calls (audio s)) = without_abort (calls (audio t))"

text \<open>Freshly constructed adapters, with no option set and no device listed.\<close>

definition no_options :: AudioOptions where
  "no_options = \<lparr>deviceId = None, sampleRate = None, channelCount = None, sampleFormat = None\<rparr>"

definition capture0 :: adapter where
  "capture0 = projr (AudioInput_new [] no_options)"

definition playback0 :: adapter where
  "playback0 = projr (AudioOutput_new [] no_options)"

section \<open>Auxiliary facts\<close>

lemmas method_defs =
  AudioInput_read_def AudioInput_start_def AudioInput_abort_def AudioInput_quit_def
  AudioOutput_write_def AudioOutput_start_def AudioOutput_abort_def AudioOutput_quit_def
  engine_read_def engine_write_def engine_start_def engine_abort_def engine_quit_def

lemmas fresh_defs =
  capture0_def playback0_def no_options_def AudioInput_new_def AudioOutput_new_def
  NodePA_AudioIn_def NodePA_AudioOut_def NodePA_open_def sampleFormat_ok_def deviceId_ok_def
  on_def

lemma written_append: "written (xs @ ys) = written xs @ written ys"
  by (induction xs rule: written.induct) simp_all

lemma pushed_Cons: "pushed (e # es) = pushed [e] @ pushed es"
  by (cases e) simp_all

lemma complete_at:
  assumes "i < length (pending (audio s))" and "handler_of (pending (audio s) ! i) = Some h"
  shows "complete i err buf s =
           call_handler h err buf
             (s\<lparr>audio := (audio s)\<lparr>pending := take i (pending (audio s)) @ drop (Suc i) (pending (audio s))\<rparr>\<rparr>)"
  using assms by (simp add: complete_def engine_complete_def)

subsection \<open>The log of the binding changes only by the adapter's methods\<close>

lemma call_value_audio: "call_value v s = Inr s' \<Longrightarrow> audio s' = audio s"
  by (cases v) auto

lemma call_handler_calls:
  "call_handler h err buf s = Inr s' \<Longrightarrow> calls (audio s') = calls (audio s)"
  by (cases h) (auto simp: push_def split: if_splits dest: call_value_audio)

lemma complete_calls:
  "complete i err buf s = Inr s' \<Longrightarrow> calls (audio s') = calls (audio s)"
  unfolding complete_def
  by (auto simp: engine_complete_def split: option.splits if_splits dest!: call_handler_calls)

lemma emit_written:
  "written (calls (audio (emit name args ls s))) = written (calls (audio s))"
proof (induction ls arbitrary: s)
  case Nil
  then show ?case by simp
next
  case (Cons a ls)
  obtain n l where a: "a = (n, l)" by (cases a)
  have "written (calls (audio (call_listener l args s))) = written (calls (audio s))"
    by (cases l; cases args) (simp_all add: AudioOutput_quit_def engine_quit_def written_append)
  with Cons a show ?case by simp
qed

lemma out_step_written:
  "out_step e s = Inr s' \<Longrightarrow>
   written (calls (audio s')) = written (calls (audio s)) @ pushed [e]"
  by (cases e)
     (auto simp: method_defs written_append emit_written dest: complete_calls)

subsection \<open>Every registered callback is waiting or has been called\<close>

lemma filter_remove_nth:
  assumes "i < length ps"
  shows "length (filter P (take i ps @ drop (Suc i) ps)) + (if P (ps ! i) then 1 else 0)
           = length (filter P ps)"
proof -
  have "length (filter P ps) = length (filter P (take i ps @ ps ! i # drop (Suc i) ps))"
    using id_take_nth_drop [OF assms] by simp
  then show ?thesis by simp
qed

lemma call_handler_called:
  "call_handler h err buf s = Inr s' \<Longrightarrow>
   called k s' = called k s + (if notifies k h then 1 else 0) \<and> waiting k s' = waiting k s"
proof (cases h)
  case (Passed cb)
  assume "call_handler h err buf s = Inr s'"
  with Passed show ?thesis
    by (cases cb) (auto simp: called_def waiting_def)
next
  case NoopArrow
  assume "call_handler h err buf s = Inr s'"
  with NoopArrow show ?thesis by auto
next
  case ReadArrow
  assume "call_handler h err buf s = Inr s'"
  with ReadArrow show ?thesis
    by (auto simp: called_def waiting_def push_def split: if_splits)
next
  case (QuitArrow cb)
  assume "call_handler h err buf s = Inr s'"
  with QuitArrow show ?thesis
    by (cases cb) (auto simp: called_def waiting_def split: if_splits)
qed

lemma awaits_handler: "handler_of c = Some h \<Longrightarrow> awaits k c = notifies k h"
  by (cases c) auto

lemma complete_conserves:
  assumes "complete i err buf s = Inr s'"
  shows "called k s' + waiting k s' = called k s + waiting k s"
proof (cases "engine_complete i (audio s)")
  case None
  with assms show ?thesis by (simp add: complete_def)
next
  case (Some p)
  obtain h a where p: "p = (h, a)" by (cases p)
  from Some p have i: "i < length (pending (audio s))"
    and h: "handler_of (pending (audio s) ! i) = Some h"
    and a: "a = (audio s)\<lparr>pending := take i (pending (audio s)) @ drop (Suc i) (pending (audio s))\<rparr>"
    by (auto simp: engine_complete_def split: if_splits option.splits)
  let ?t = "s\<lparr>audio := a\<rparr>"
  from assms Some p have c: "call_handler h err buf ?t = Inr s'"
    by (simp add: complete_def)
  have "waiting k ?t + (if notifies k h then 1 else 0) = waiting k s"
    using filter_remove_nth [OF i, of "awaits k"] awaits_handler [OF h, of k]
    by (simp add: waiting_def a)
  moreover have "called k ?t = called k s"
    by (simp add: called_def)
  ultimately show ?thesis
    using call_handler_called [OF c, of k] by simp
qed

lemma in_step_conserves:
  "in_step e s = Inr s' \<Longrightarrow>
   called k s' + waiting k s' = called k s + waiting k s + (if in_registers k e then 1 else 0)"
proof (cases e)
  case (InQuit cb)
  assume "in_step e s = Inr s'"
  with InQuit show ?thesis
    by (cases cb) (auto simp: AudioInput_quit_def engine_quit_def called_def waiting_def)
next
  case (InComplete i err buf)
  assume "in_step e s = Inr s'"
  with InComplete show ?thesis
    using complete_conserves [of i err buf s s' k] by simp
qed (auto simp: method_defs called_def waiting_def)

lemma quit_conserves:
  "called k (AudioOutput_quit cb s) + waiting k (AudioOutput_quit cb s)
     = called k s + waiting k s + (if cb = JFunction k then 1 else 0)"
  by (cases cb) (auto simp: AudioOutput_quit_def engine_quit_def called_def waiting_def)

lemma emit_conserves:
  "called k (emit name [] ls s) + waiting k (emit name [] ls s) = called k s + waiting k s"
proof (induction ls arbitrary: s)
  case Nil
  then show ?case by simp
next
  case (Cons a ls)
  obtain n l where a: "a = (n, l)" by (cases a)
  have "called k (call_listener l [] s) + waiting k (call_listener l [] s)
          = called k s + waiting k s"
    by (cases l) (simp add: quit_conserves)
  with Cons a show ?case by simp
qed

lemma out_step_conserves:
  "out_step e s = Inr s' \<Longrightarrow>
   called k s' + waiting k s' = called k s + waiting k s + (if out_registers k e then 1 else 0)"
proof (cases e)
  case (Push chunk encoding cb)
  assume "out_step e s = Inr s'"
  with Push show ?thesis
    by (cases cb) (auto simp: AudioOutput_write_def engine_write_def called_def waiting_def)
next
  case (OutQuit cb)
  assume "out_step e s = Inr s'"
  with OutQuit show ?thesis
    using quit_conserves [of k cb s] by auto
next
  case Finish
  assume "out_step e s = Inr s'"
  with Finish show ?thesis
    using emit_conserves [of k "''finish''" "listeners s" s] by auto
next
  case (OutComplete i err buf)
  assume "out_step e s = Inr s'"
  with OutComplete show ?thesis
    using complete_conserves [of i err buf s s' k] by simp
qed (auto simp: method_defs called_def waiting_def)

lemma in_run_conserves:
  "in_run evs s = Inr s' \<Longrightarrow>
   called k s' + waiting k s' = called k s + waiting k s + length (filter (in_registers k) evs)"
proof (induction evs arbitrary: s)
  case Nil
  then show ?case by simp
next
  case (Cons e evs)
  from Cons.prems obtain t where t: "in_step e s = Inr t" and r: "in_run evs t = Inr s'"
    by (auto split: sum.splits)
  show ?case
    using Cons.IH [OF r] in_step_conserves [OF t, of k] by simp
qed

lemma out_run_conserves:
  "out_run evs s = Inr s' \<Longrightarrow>
   called k s' + waiting k s' = called k s + waiting k s + length (filter (out_registers k) evs)"
proof (induction evs arbitrary: s)
  case Nil
  then show ?case by simp
next
  case (Cons e evs)
  from Cons.prems obtain t where t: "out_step e s = Inr t" and r: "out_run evs t = Inr s'"
    by (auto split: sum.splits)
  show ?case
    using Cons.IH [OF r] out_step_conserves [OF t, of k] by simp
qed

subsection \<open>The listeners of a playback adapter never change\<close>

lemma call_handler_listeners:
  "call_handler h err buf s = Inr s' \<Longrightarrow> listeners s' = listeners s"
proof (cases h)
  case (Passed cb)
  assume "call_handler h err buf s = Inr s'"
  with Passed show ?thesis by (cases cb) auto
next
  case (QuitArrow cb)
  assume "call_handler h err buf s = Inr s'"
  with QuitArrow show ?thesis by (cases cb) (auto split: if_splits)
qed (auto simp: push_def split: if_splits)

lemma complete_listeners:
  "complete i err buf s = Inr s' \<Longrightarrow> listeners s' = listeners s"
  unfolding complete_def
  by (auto simp: engine_complete_def split: option.splits if_splits dest!: call_handler_listeners)

lemma emit_listeners: "listeners (emit name args ls s) = listeners s"
proof (induction ls arbitrary: s)
  case Nil
  then show ?case by simp
next
  case (Cons a ls)
  obtain n l where a: "a = (n, l)" by (cases a)
  have "listeners (call_listener l args s) = listeners s"
    by (cases l; cases args) (simp_all add: AudioOutput_quit_def)
  with Cons a show ?case by simp
qed

lemma out_step_listeners: "out_step e s = Inr s' \<Longrightarrow> listeners s' = listeners s"
  by (cases e) (auto simp: method_defs emit_listeners dest: complete_listeners)

lemma out_run_listeners: "out_run evs s = Inr s' \<Longrightarrow> listeners s' = listeners s"
proof (induction evs arbitrary: s)
  case Nil
  then show ?case by simp
next
  case (Cons e evs)
  from Cons.prems obtain t where t: "out_step e s = Inr t" and r: "out_run evs t = Inr s'"
    by (auto split: sum.splits)
  show ?case
    using Cons.IH [OF r] out_step_listeners [OF t] by simp
qed

lemma AudioOutput_new_listeners:
  "AudioOutput_new devices options = Inr s \<Longrightarrow> listeners s = [(''finish'', BoundQuit)]"
  by (auto simp: AudioOutput_new_def on_def split: sum.splits)

subsection \<open>One pull and its completion\<close>

lemma pull_complete:
  assumes "pending (audio s) = []" and "\<not> objectMode s"
  shows "in_run [Pull sz, InComplete 0 err buf] s =
           Inr (s\<lparr>audio := (audio s)\<lparr>calls := calls (audio s) @ [requested (sz, err, buf)]\<rparr>,
                  queue := queue s @ delivered [(sz, err, buf)]\<rparr>)"
  using assms
  by (cases sz)
     (simp_all add: AudioInput_read_def engine_read_def complete_def engine_complete_def push_def)

lemma served_in_order:
  "pending (audio s) = [] \<Longrightarrow> \<not> objectMode s \<Longrightarrow>
   \<exists>s'. in_run (served ps) s = Inr s' \<and>
        calls (audio s') = calls (audio s) @ map requested ps \<and>
        queue s' = queue s @ delivered ps \<and>
        pending (audio s') = []"
proof (induction ps arbitrary: s)
  case Nil
  then show ?case by simp
next
  case (Cons p ps)
  obtain sz err buf where p: "p = (sz, err, buf)" by (cases p)
  let ?t = "s\<lparr>audio := (audio s)\<lparr>calls := calls (audio s) @ [requested (sz, err, buf)]\<rparr>,
               queue := queue s @ delivered [(sz, err, buf)]\<rparr>"
  have step: "in_run [Pull sz, InComplete 0 err buf] s = Inr ?t"
    using pull_complete [OF Cons.prems] .
  have "pending (audio ?t) = []" and "\<not> objectMode ?t" using Cons.prems by simp_all
  from Cons.IH [OF this] obtain s' where r: "in_run (served ps) ?t = Inr s'"
    and c: "calls (audio s') = calls (audio ?t) @ map requested ps"
    and q: "queue s' = queue ?t @ delivered ps"
    and e: "pending (audio s') = []"
    by blast
  have "in_run (served (p # ps)) s = Inr s'"
    using step r p by (simp split: sum.splits)
  moreover have "calls (audio s') = calls (audio s) @ map requested (p # ps)"
    using c p by simp
  moreover have "queue s' = queue s @ delivered (p # ps)"
    using q p by simp
  ultimately show ?case using e by blast
qed

subsection \<open>The queue only grows at its end\<close>

lemma call_handler_queue:
  "call_handler h err buf s = Inr s' \<Longrightarrow> \<exists>bs. queue s' = queue s @ bs"
proof (cases h)
  case (Passed cb)
  assume "call_handler h err buf s = Inr s'"
  with Passed show ?thesis by (cases cb) auto
next
  case (QuitArrow cb)
  assume "call_handler h err buf s = Inr s'"
  with QuitArrow show ?thesis by (cases cb) (auto split: if_splits)
qed (auto simp: push_def split: if_splits)

lemma complete_queue:
  "complete i err buf s = Inr s' \<Longrightarrow> \<exists>bs. queue s' = queue s @ bs"
  unfolding complete_def
  by (auto simp: engine_complete_def split: option.splits if_splits dest!: call_handler_queue)

lemma in_step_queue: "in_step e s = Inr s' \<Longrightarrow> \<exists>bs. queue s' = queue s @ bs"
  by (cases e) (auto simp: method_defs dest: complete_queue)

lemma in_run_queue: "in_run evs s = Inr s' \<Longrightarrow> \<exists>bs. queue s' = queue s @ bs"
proof (induction evs arbitrary: s)
  case Nil
  then show ?case by simp
next
  case (Cons e evs)
  from Cons.prems obtain t where t: "in_step e s = Inr t" and r: "in_run evs t = Inr s'"
    by (auto split: sum.splits)
  from in_step_queue [OF t] obtain bs where "queue t = queue s @ bs" ..
  moreover from Cons.IH [OF r] obtain cs where "queue s' = queue t @ cs" ..
  ultimately show ?case by simp
qed

subsection \<open>Nothing the adapter does depends on an earlier abort\<close>

lemma call_value_same:
  "same_but_aborts s t \<Longrightarrow> rel_sum (=) same_but_aborts (call_value v s) (call_value v t)"
  by (cases v) (simp_all add: same_but_aborts_def)

lemma call_handler_same:
  "same_but_aborts s t \<Longrightarrow>
   rel_sum (=) same_but_aborts (call_handler h err buf s) (call_handler h err buf t)"
proof (cases h)
  case (Passed cb)
  assume "same_but_aborts s t"
  with Passed show ?thesis by (simp add: call_value_same)
next
  case NoopArrow
  assume "same_but_aborts s t"
  with NoopArrow show ?thesis by simp
next
  case ReadArrow
  assume "same_but_aborts s t"
  with ReadArrow show ?thesis by (simp add: same_but_aborts_def push_def)
next
  case (QuitArrow cb)
  assume "same_but_aborts s t"
  with QuitArrow show ?thesis by (simp add: call_value_same)
qed

lemma complete_same:
  assumes "same_but_aborts s t"
  shows "rel_sum (=) same_but_aborts (complete i err buf s) (complete i err buf t)"
proof (cases "i < length (pending (audio s))")
  case False
  with assms show ?thesis
    by (simp add: complete_def engine_complete_def same_but_aborts_def)
next
  case True
  from assms have p: "pending (audio t) = pending (audio s)"
    by (simp add: same_but_aborts_def)
  show ?thesis
  proof (cases "handler_of (pending (audio s) ! i)")
    case None
    with True p assms show ?thesis
      by (simp add: complete_def engine_complete_def)
  next
    case (Some h)
    let ?ps = "take i (pending (audio s)) @ drop (Suc i) (pending (audio s))"
    have "same_but_aborts (s\<lparr>audio := (audio s)\<lparr>pending := ?ps\<rparr>\<rparr>)
            (t\<lparr>audio := (audio t)\<lparr>pending := ?ps\<rparr>\<rparr>)"
      using assms by (simp add: same_but_aborts_def)
    from call_handler_same [OF this, of h err buf] show ?thesis
      using True Some p by (simp add: complete_def engine_complete_def)
  qed
qed

lemma quit_same:
  "same_but_aborts s t \<Longrightarrow> same_but_aborts (AudioOutput_quit cb s) (AudioOutput_quit cb t)"
  by (simp add: same_but_aborts_def AudioOutput_quit_def engine_quit_def without_abort_def)

lemma emit_same:
  "same_but_aborts s t \<Longrightarrow> same_but_aborts (emit name args ls s) (emit name args ls t)"
proof (induction ls arbitrary: s t)
  case Nil
  then show ?case by simp
next
  case (Cons a ls)
  obtain n l where a: "a = (n, l)" by (cases a)
  have "same_but_aborts (call_listener l args s) (call_listener l args t)"
    using Cons.prems by (cases l; cases args) (simp_all add: quit_same)
  with Cons a show ?case by simp
qed

lemma out_step_same:
  assumes "same_but_aborts s t"
  shows "rel_sum (=) same_but_aborts (out_step e s) (out_step e t)"
proof (cases e)
  case Finish
  from assms have "listeners t = listeners s" by (simp add: same_but_aborts_def)
  with Finish emit_same [OF assms] show ?thesis by simp
next
  case (OutComplete i err buf)
  with complete_same [OF assms] show ?thesis by simp
qed (use assms in \<open>simp_all add: same_but_aborts_def without_abort_def method_defs\<close>)

lemma in_step_same:
  assumes "same_but_aborts s t"
  shows "rel_sum (=) same_but_aborts (in_step e s) (in_step e t)"
proof (cases e)
  case (InComplete i err buf)
  with complete_same [OF assms] show ?thesis by simp
qed (use assms in \<open>simp_all add: same_but_aborts_def without_abort_def method_defs\<close>)

lemma out_run_same:
  "same_but_aborts s t \<Longrightarrow> rel_sum (=) same_but_aborts (out_run evs s) (out_run evs t)"
proof (induction evs arbitrary: s t)
  case Nil
  then show ?case by simp
next
  case (Cons e evs)
  from out_step_same [OF Cons.prems, of e] show ?case
    by (cases "out_step e s"; cases "out_step e t") (simp_all add: Cons.IH)
qed

lemma in_run_same:
  "same_but_aborts s t \<Longrightarrow> rel_sum (=) same_but_aborts (in_run evs s) (in_run evs t)"
proof (induction evs arbitrary: s t)
  case Nil
  then show ?case by simp
next
  case (Cons e evs)
  from in_step_same [OF Cons.prems, of e] show ?case
    by (cases "in_step e s"; cases "in_step e t") (simp_all add: Cons.IH)
qed

section \<open>The claims\<close>

text \<open>
  C1. When the read of a capture pull completes with an error, whichever pending read
  it is, the handler appends nothing to the queue, throws nothing and issues no
  request: the state is the one before, less the completed request. Another read is
  issued when \<^verbatim>\<open>_read\<close> is called again, and only then.
\<close>

theorem read_error_dropped:
  assumes "i < length (pending (audio s))"
    and "pending (audio s) ! i = ERead n ReadArrow"
    and "truthy err"
  shows "in_step (InComplete i err buf) s =
           Inr (s\<lparr>audio := (audio s)\<lparr>pending := take i (pending (audio s)) @ drop (Suc i) (pending (audio s))\<rparr>\<rparr>)
         \<and> calls (audio (AudioInput_read sz s)) =
             calls (audio s) @ [requested (sz, err, buf)]"
  using assms by (cases sz) (simp_all add: complete_at AudioInput_read_def engine_read_def)

theorem read_error_dropped_witness:
  "in_run [Pull (Some 4), InComplete 0 (JError ''overflow'') [9, 9, 9, 9]] capture0
     = Inr (capture0\<lparr>audio := (audio capture0)\<lparr>calls := [ERead 4 ReadArrow]\<rparr>\<rparr>)
   \<and> queue capture0 = []"
proof -
  let ?s = "AudioInput_read (Some 4) capture0"
  have p: "pending (audio ?s) = [ERead 4 ReadArrow]"
    by (simp add: fresh_defs method_defs)
  have "in_step (InComplete 0 (JError ''overflow'') [9, 9, 9, 9]) ?s =
          Inr (?s\<lparr>audio := (audio ?s)\<lparr>pending := take 0 (pending (audio ?s)) @ drop (Suc 0) (pending (audio ?s))\<rparr>\<rparr>)"
    using read_error_dropped [of 0 ?s 4 "JError ''overflow''" "[9, 9, 9, 9]" "Some 4"] p
    by simp
  then show ?thesis
    by (simp add: p) (simp add: fresh_defs method_defs)
qed

text \<open>
  C2, as the code has it. \<^verbatim>\<open>write\<close> submits its chunk to the binding at once, whether
  or not earlier writes have completed: after any number of pushes with no completion
  in between, that many more write requests are outstanding, submitted in the order of
  the pushes. The adapter holds no chunk back.
\<close>

theorem pushes_submitted_at_once:
  "\<exists>s'. out_run (pushes ps) s = Inr s' \<and>
        outstanding_writes (audio s') = outstanding_writes (audio s) + length ps \<and>
        written (calls (audio s')) = written (calls (audio s)) @ map fst ps"
proof (induction ps arbitrary: s)
  case Nil
  then show ?case by simp
next
  case (Cons p ps)
  obtain chunk encoding cb where p: "p = (chunk, encoding, cb)" by (cases p)
  let ?t = "snd (AudioOutput_write chunk encoding cb s)"
  from Cons.IH [of ?t] obtain s' where r: "out_run (pushes ps) ?t = Inr s'"
    and o: "outstanding_writes (audio s') = outstanding_writes (audio ?t) + length ps"
    and w: "written (calls (audio s')) = written (calls (audio ?t)) @ map fst ps"
    by blast
  have "outstanding_writes (audio ?t) = Suc (outstanding_writes (audio s))"
    by (simp add: outstanding_writes_def AudioOutput_write_def engine_write_def)
  moreover have "written (calls (audio ?t)) = written (calls (audio s)) @ [chunk]"
    by (simp add: AudioOutput_write_def engine_write_def written_append)
  ultimately show ?case
    using r o w p by simp
qed

theorem pushes_submitted_at_once_witness:
  "out_run (pushes [([1], JUndefined, JUndefined), ([2], JUndefined, JUndefined)]) playback0
     = Inr (playback0\<lparr>audio := (audio playback0)
              \<lparr>calls := [EWrite [1] NoopArrow, EWrite [2] NoopArrow],
               pending := [EWrite [1] NoopArrow, EWrite [2] NoopArrow]\<rparr>\<rparr>)"
  using pushes_submitted_at_once
          [of "[([1], JUndefined, JUndefined), ([2], JUndefined, JUndefined)]" playback0]
  by (simp add: fresh_defs method_defs)

text \<open>
  C2, as stated, fails: on a fresh playback adapter, a second \<^verbatim>\<open>write\<close> made before
  the first has completed is submitted to the binding all the same, and two write
  requests are outstanding.
\<close>

theorem second_write_not_held_back:
  "calls (audio (snd (AudioOutput_write [2] JUndefined JUndefined
            (snd (AudioOutput_write [1] JUndefined JUndefined playback0)))))
     = [EWrite [1] NoopArrow, EWrite [2] NoopArrow] \<and>
   outstanding_writes (audio (snd (AudioOutput_write [2] JUndefined JUndefined
            (snd (AudioOutput_write [1] JUndefined JUndefined playback0))))) = 2"
  by (simp add: fresh_defs method_defs outstanding_writes_def)

text \<open>
  C3. A call of \<^verbatim>\<open>write\<close> returns true and adds exactly one write request of the chunk
  to the binding's log and to its pending requests, with the caller's callback as the
  completion handler (the no-op arrow when none is given); it calls nothing itself.
  When the binding completes that request, the caller's callback is called.
\<close>

theorem write_submits_once:
  "fst (AudioOutput_write chunk encoding cb s) = True \<and>
   calls (audio (snd (AudioOutput_write chunk encoding cb s)))
     = calls (audio s) @ [EWrite chunk (if cb = JUndefined then NoopArrow else Passed cb)] \<and>
   pending (audio (snd (AudioOutput_write chunk encoding cb s)))
     = pending (audio s) @ [EWrite chunk (if cb = JUndefined then NoopArrow else Passed cb)] \<and>
   invoked (snd (AudioOutput_write chunk encoding cb s)) = invoked s \<and>
   out_step (OutComplete (length (pending (audio s))) err buf)
       (snd (AudioOutput_write chunk encoding (JFunction k) s))
     = Inr (s\<lparr>audio := (audio s)\<lparr>calls := calls (audio s) @ [EWrite chunk (Passed (JFunction k))]\<rparr>,
              invoked := invoked s @ [k]\<rparr>)"
  by (simp add: AudioOutput_write_def engine_write_def complete_def engine_complete_def)

theorem write_submits_once_witness:
  "out_run [Push [1, 2] JUndefined (JFunction 5), OutComplete 0 JNull []] playback0
     = Inr (playback0\<lparr>audio := (audio playback0)\<lparr>calls := [EWrite [1, 2] (Passed (JFunction 5))]\<rparr>,
                     invoked := [5]\<rparr>)"
proof -
  have p: "pending (audio playback0) = []" "calls (audio playback0) = []" "invoked playback0 = []"
    by (simp_all add: fresh_defs)
  show ?thesis
    using write_submits_once [of "[1, 2]" JUndefined "JFunction 5" playback0 JNull "[]" 5]
    by (simp add: p)
qed

text \<open>
  C4. On either adapter, \<^verbatim>\<open>quit(cb)\<close> with a function \<open>cb\<close> does not call it; it hands
  the binding one quit request with a handler of its own, and when the binding
  completes that request \<open>cb\<close> is called once and the request is no longer pending.
  Over any run, the calls of a function so far plus the pending requests awaiting it
  are the calls and pending requests at the start plus one for each time it was passed
  as a callback: each \<^verbatim>\<open>quit(cb)\<close> leads to one call of \<open>cb\<close>, at the completion of its
  own request, and to no other.
\<close>

theorem quit_callback_once:
  "invoked (AudioInput_quit cb s) = invoked s \<and>
   invoked (AudioOutput_quit cb s) = invoked s \<and>
   in_run [InQuit (JFunction k), InComplete (length (pending (audio s))) err buf] s
     = Inr (s\<lparr>audio := (audio s)\<lparr>calls := calls (audio s) @ [EQuit (QuitArrow (JFunction k))]\<rparr>,
              invoked := invoked s @ [k]\<rparr>) \<and>
   out_run [OutQuit (JFunction k), OutComplete (length (pending (audio s))) err buf] s
     = Inr (s\<lparr>audio := (audio s)\<lparr>calls := calls (audio s) @ [EQuit (QuitArrow (JFunction k))]\<rparr>,
              invoked := invoked s @ [k]\<rparr>) \<and>
   (in_run ins s = Inr s' \<longrightarrow>
      called k s' + waiting k s'
        = called k s + waiting k s + length (filter (in_registers k) ins)) \<and>
   (out_run outs s = Inr s'' \<longrightarrow>
      called k s'' + waiting k s''
        = called k s + waiting k s + length (filter (out_registers k) outs))"
proof -
  have "in_run [InQuit (JFunction k), InComplete (length (pending (audio s))) err buf] s
     = Inr (s\<lparr>audio := (audio s)\<lparr>calls := calls (audio s) @ [EQuit (QuitArrow (JFunction k))]\<rparr>,
              invoked := invoked s @ [k]\<rparr>)"
    by (simp add: AudioInput_quit_def engine_quit_def complete_def engine_complete_def)
  moreover
  have "out_run [OutQuit (JFunction k), OutComplete (length (pending (audio s))) err buf] s
     = Inr (s\<lparr>audio := (audio s)\<lparr>calls := calls (audio s) @ [EQuit (QuitArrow (JFunction k))]\<rparr>,
              invoked := invoked s @ [k]\<rparr>)"
    by (simp add: AudioOutput_quit_def engine_quit_def complete_def engine_complete_def)
  moreover have "invoked (AudioInput_quit cb s) = invoked s"
    by (simp add: AudioInput_quit_def)
  moreover have "invoked (AudioOutput_quit cb s) = invoked s"
    by (simp add: AudioOutput_quit_def)
  ultimately show ?thesis
    using in_run_conserves [of ins s s' k] out_run_conserves [of outs s s'' k] by blast
qed

theorem quit_callback_once_witness:
  "in_run [InQuit (JFunction 3), InQuit (JFunction 4), InComplete 1 JNull [], InComplete 0 JNull []]
      capture0
     = Inr (capture0\<lparr>audio := (audio capture0)
              \<lparr>calls := [EQuit (QuitArrow (JFunction 3)), EQuit (QuitArrow (JFunction 4))]\<rparr>,
             invoked := [4, 3]\<rparr>)
   \<and> called 3 (capture0\<lparr>audio := (audio capture0)
              \<lparr>calls := [EQuit (QuitArrow (JFunction 3)), EQuit (QuitArrow (JFunction 4))]\<rparr>,
             invoked := [4, 3]\<rparr>) = 1
   \<and> waiting 3 (capture0\<lparr>audio := (audio capture0)
              \<lparr>calls := [EQuit (QuitArrow (JFunction 3)), EQuit (QuitArrow (JFunction 4))]\<rparr>,
             invoked := [4, 3]\<rparr>) = 0"
proof -
  let ?evs = "[InQuit (JFunction 3), InQuit (JFunction 4), InComplete 1 JNull [], InComplete 0 JNull []]"
  let ?t = "capture0\<lparr>audio := (audio capture0)
              \<lparr>calls := [EQuit (QuitArrow (JFunction 3)), EQuit (QuitArrow (JFunction 4))]\<rparr>,
             invoked := [4, 3]\<rparr>"
  have r: "in_run ?evs capture0 = Inr ?t"
    by (simp add: fresh_defs method_defs complete_def engine_complete_def)
  have w: "waiting 3 ?t = 0"
    by (simp add: waiting_def fresh_defs)
  have "called 3 ?t + waiting 3 ?t
          = called 3 capture0 + waiting 3 capture0 + length (filter (in_registers 3) ?evs)"
    using quit_callback_once [of JNull capture0 3 JNull "[]" ?evs ?t "[]" capture0] r by blast
  moreover have "called 3 capture0 + waiting 3 capture0 = 0"
    by (simp add: called_def waiting_def fresh_defs)
  ultimately have "called 3 ?t = 1"
    using w by simp
  with r w show ?thesis by simp
qed

text \<open>
  C5. In every run of a playback adapter, whatever else happens in between, the chunks
  of the write requests the binding has received are, in order, those it had received
  before followed by the chunks given to \<^verbatim>\<open>write\<close>, in the order of the calls.
\<close>

theorem playback_order:
  "out_run evs s = Inr s' \<Longrightarrow>
   written (calls (audio s')) = written (calls (audio s)) @ pushed evs"
proof (induction evs arbitrary: s)
  case Nil
  then show ?case by simp
next
  case (Cons e evs)
  from Cons.prems obtain t where t: "out_step e s = Inr t" and r: "out_run evs t = Inr s'"
    by (auto split: sum.splits)
  have "written (calls (audio s')) = written (calls (audio t)) @ pushed evs"
    using Cons.IH [OF r] .
  also have "written (calls (audio t)) = written (calls (audio s)) @ pushed [e]"
    using out_step_written [OF t] .
  finally show ?case
    using pushed_Cons [of e evs] by simp
qed

theorem playback_order_witness:
  "out_run [Push [1] JUndefined JUndefined, OutStart, Push [2] JNull (JFunction 1),
            OutComplete 1 JNull [], Push [3] JUndefined JUndefined] playback0
     = Inr (playback0\<lparr>audio := (audio playback0)
              \<lparr>calls := [EWrite [1] NoopArrow, EStart, EWrite [2] (Passed (JFunction 1)),
                         EWrite [3] NoopArrow],
               pending := [EWrite [1] NoopArrow, EWrite [3] NoopArrow]\<rparr>,
             invoked := [1]\<rparr>)
   \<and> written [EWrite [1] NoopArrow, EStart, EWrite [2] (Passed (JFunction 1)), EWrite [3] NoopArrow]
       = [[1], [2], [3]]"
proof -
  let ?evs = "[Push [1] JUndefined JUndefined, OutStart, Push [2] JNull (JFunction 1),
            OutComplete 1 JNull [], Push [3] JUndefined JUndefined]"
  let ?t = "playback0\<lparr>audio := (audio playback0)
              \<lparr>calls := [EWrite [1] NoopArrow, EStart, EWrite [2] (Passed (JFunction 1)),
                         EWrite [3] NoopArrow],
               pending := [EWrite [1] NoopArrow, EWrite [3] NoopArrow]\<rparr>,
             invoked := [1]\<rparr>"
  have r: "out_run ?evs playback0 = Inr ?t"
    by (simp add: fresh_defs method_defs complete_def engine_complete_def)
  from playback_order [OF r] r show ?thesis
    by simp
qed

text \<open>
  C6. On a playback adapter made by the constructor, after any run, the event
  \<^verbatim>\<open>finish\<close> calls \<^verbatim>\<open>quit\<close> with no callback: one quit request is handed to the binding.
\<close>

theorem finish_quits:
  assumes "AudioOutput_new devices options = Inr s0" and "out_run evs s0 = Inr s"
  shows "out_step Finish s = Inr (AudioOutput_quit JUndefined s)
         \<and> calls (audio (AudioOutput_quit JUndefined s))
             = calls (audio s) @ [EQuit (QuitArrow JUndefined)]"
proof -
  have "listeners s = [(''finish'', BoundQuit)]"
    using out_run_listeners [OF assms(2)] AudioOutput_new_listeners [OF assms(1)] by simp
  then show ?thesis
    by (simp add: AudioOutput_quit_def engine_quit_def)
qed

theorem finish_quits_witness:
  "AudioOutput_new [] no_options = Inr playback0 \<and>
   out_run [Push [1] JUndefined JUndefined, Finish] playback0
     = Inr (playback0\<lparr>audio := (audio playback0)
              \<lparr>calls := [EWrite [1] NoopArrow, EQuit (QuitArrow JUndefined)],
               pending := [EWrite [1] NoopArrow, EQuit (QuitArrow JUndefined)]\<rparr>\<rparr>)"
proof -
  let ?t = "playback0\<lparr>audio := (audio playback0)
              \<lparr>calls := [EWrite [1] NoopArrow], pending := [EWrite [1] NoopArrow]\<rparr>\<rparr>"
  have n: "AudioOutput_new [] no_options = Inr playback0"
    by (simp add: fresh_defs)
  have r: "out_run [Push [1] JUndefined JUndefined] playback0 = Inr ?t"
    by (simp add: fresh_defs method_defs)
  have "out_step Finish ?t = Inr (AudioOutput_quit JUndefined ?t)"
    using finish_quits [OF n r] by simp
  then have "out_run [Push [1] JUndefined JUndefined, Finish] playback0
               = Inr (AudioOutput_quit JUndefined ?t)"
    using r by (simp split: sum.splits)
  then show ?thesis
    using n by (simp add: method_defs)
qed

text \<open>
  C7, as the code has it. \<^verbatim>\<open>_read\<close> hands the binding exactly one read request, of
  the size given and of 1024 when none is given. When a pending read completes
  without error, its buffer, unless empty, is appended at the end of the queue, and
  no run removes or reorders what is queued: the queue is in the order of the
  completions. That is the order of issuance when the pulls are served one at a time;
  the adapter does nothing to keep reads from overlapping.
\<close>

theorem pull_reads_and_delivers:
  "calls (audio (AudioInput_read None s)) = calls (audio s) @ [ERead 1024 ReadArrow] \<and>
   calls (audio (AudioInput_read (Some n) s)) = calls (audio s) @ [ERead n ReadArrow] \<and>
   (i < length (pending (audio s)) \<and> pending (audio s) ! i = ERead m ReadArrow \<and> \<not> truthy err \<longrightarrow>
      in_step (InComplete i err buf) s =
        Inr (s\<lparr>audio := (audio s)\<lparr>pending := take i (pending (audio s)) @ drop (Suc i) (pending (audio s))\<rparr>,
               queue := queue s @ (if objectMode s \<or> buf \<noteq> [] then [buf] else [])\<rparr>)) \<and>
   (in_run evs s = Inr s'' \<longrightarrow> (\<exists>bs. queue s'' = queue s @ bs)) \<and>
   (pending (audio s) = [] \<and> \<not> objectMode s \<longrightarrow>
      (\<exists>s'. in_run (served ps) s = Inr s' \<and>
            calls (audio s') = calls (audio s) @ map requested ps \<and>
            queue s' = queue s @ delivered ps \<and>
            pending (audio s') = []))"
proof -
  have "i < length (pending (audio s)) \<Longrightarrow> pending (audio s) ! i = ERead m ReadArrow \<Longrightarrow>
        \<not> truthy err \<Longrightarrow>
        in_step (InComplete i err buf) s =
          Inr (s\<lparr>audio := (audio s)\<lparr>pending := take i (pending (audio s)) @ drop (Suc i) (pending (audio s))\<rparr>,
                 queue := queue s @ (if objectMode s \<or> buf \<noteq> [] then [buf] else [])\<rparr>)"
    by (simp add: complete_at push_def)
  moreover have "in_run evs s = Inr s'' \<Longrightarrow> \<exists>bs. queue s'' = queue s @ bs"
    by (rule in_run_queue)
  ultimately show ?thesis
    using served_in_order [of s ps]
    by (simp add: AudioInput_read_def engine_read_def)
qed

theorem pull_reads_and_delivers_witness:
  "in_run (served [(None, JNull, [1, 2]), (Some 2, JError ''xrun'', [0, 0]), (Some 4, JNull, []),
                   (Some 1, JUndefined, [3])])
      capture0
     = Inr (capture0\<lparr>audio := (audio capture0)
              \<lparr>calls := [ERead 1024 ReadArrow, ERead 2 ReadArrow, ERead 4 ReadArrow,
                         ERead 1 ReadArrow]\<rparr>,
             queue := [[1, 2], [3]]\<rparr>)"
proof -
  have p: "pending (audio capture0) = []" "\<not> objectMode capture0"
    by (simp_all add: fresh_defs)
  from pull_reads_and_delivers
         [of capture0 0 0 0 JNull "[]" "[]" capture0
             "[(None, JNull, [1, 2]), (Some 2, JError ''xrun'', [0, 0]), (Some 4, JNull, []),
               (Some 1, JUndefined, [3])]"]
  show ?thesis
    by (simp add: fresh_defs method_defs complete_def engine_complete_def push_def)
qed

text \<open>
  C7, as stated, fails: on a fresh capture adapter, two pulls are issued and the second
  read completes before the first, both without error; the queue holds the buffer of
  the second read before that of the first, which is not the order of issuance.
\<close>

theorem overlapping_reads_out_of_order:
  "in_run [Pull (Some 1), Pull (Some 2), InComplete 1 JNull [2, 2], InComplete 0 JNull [1]]
      capture0
     = Inr (capture0\<lparr>audio := (audio capture0)
              \<lparr>calls := [ERead 1 ReadArrow, ERead 2 ReadArrow]\<rparr>,
             queue := [[2, 2], [1]]\<rparr>)"
  by (simp add: fresh_defs method_defs complete_def engine_complete_def push_def)

text \<open>
  C8, as the code has it. \<^verbatim>\<open>abort\<close> hands the binding one abort request and does
  nothing else; the adapter keeps no record of it. Whatever happens afterwards (pulls,
  pushes, completions the binding still reports) has the same outcome as without the
  abort, but for the abort request in the binding's log: a later push is still
  submitted and a read the binding still completes without error is still queued.
  That no data arrives after an abort is left to the binding.
\<close>

theorem abort_only_forwards:
  "calls (audio (AudioInput_abort s)) = calls (audio s) @ [EAbort] \<and>
   calls (audio (AudioOutput_abort s)) = calls (audio s) @ [EAbort] \<and>
   rel_sum (=) same_but_aborts (in_run ins (AudioInput_abort s)) (in_run ins s) \<and>
   rel_sum (=) same_but_aborts (out_run outs (AudioOutput_abort s)) (out_run outs s)"
proof -
  have "same_but_aborts (AudioInput_abort s) s"
    by (simp add: same_but_aborts_def without_abort_def AudioInput_abort_def engine_abort_def)
  moreover have "same_but_aborts (AudioOutput_abort s) s"
    by (simp add: same_but_aborts_def without_abort_def AudioOutput_abort_def engine_abort_def)
  ultimately show ?thesis
    by (simp add: in_run_same out_run_same AudioInput_abort_def AudioOutput_abort_def
          engine_abort_def)
qed

theorem abort_only_forwards_witness:
  "rel_sum (=) same_but_aborts
     (Inr (playback0\<lparr>audio := (audio playback0)
             \<lparr>calls := [EAbort, EWrite [1] NoopArrow], pending := [EWrite [1] NoopArrow]\<rparr>\<rparr>))
     (Inr (playback0\<lparr>audio := (audio playback0)
             \<lparr>calls := [EWrite [1] NoopArrow], pending := [EWrite [1] NoopArrow]\<rparr>\<rparr>))"
  using abort_only_forwards [of playback0 "[]" "[Push [1] JUndefined JUndefined]"]
  by (simp add: fresh_defs method_defs)

text \<open>
  C8, as stated, fails: on a fresh playback adapter, a chunk pushed after \<^verbatim>\<open>abort\<close> is
  submitted to the binding, after the abort request.
\<close>

theorem write_after_abort:
  "calls (audio (snd (AudioOutput_write [1, 2] JUndefined JUndefined (AudioOutput_abort playback0))))
     = [EAbort, EWrite [1, 2] NoopArrow]"
  by (simp add: fresh_defs method_defs)

text \<open>
  C9. With the binding's constructor as the spec describes it: a sample format outside
  8, 16, 24 and 32, or a device id that is neither -1 nor listed, makes both
  constructors fail; and a constructor that returns an adapter returns it with the
  handle the binding opened for these options, which are then valid (and, for
  playback, with the listener for \<^verbatim>\<open>finish\<close> in place). There is no third outcome.
\<close>

theorem construction_all_or_nothing:
  "(sampleFormat options = Some f \<and> f \<notin> {8, 16, 24, 32} \<longrightarrow>
      AudioInput_new devices options = Inl (InvalidConfiguration ''sampleFormat'') \<and>
      AudioOutput_new devices options = Inl (InvalidConfiguration ''sampleFormat'')) \<and>
   (deviceId options = Some d \<and> d \<noteq> - 1 \<and> d \<notin> set devices \<longrightarrow>
      (\<exists>e. AudioInput_new devices options = Inl e) \<and>
      (\<exists>e. AudioOutput_new devices options = Inl e)) \<and>
   (AudioInput_new devices options = Inr s \<longrightarrow>
      audio s = \<lparr>config = options, calls = [], pending = []\<rparr> \<and>
      sampleFormat_ok options \<and> deviceId_ok devices options) \<and>
   (AudioOutput_new devices options = Inr t \<longrightarrow>
      audio t = \<lparr>config = options, calls = [], pending = []\<rparr> \<and>
      listeners t = [(''finish'', BoundQuit)] \<and>
      sampleFormat_ok options \<and> deviceId_ok devices options)"
  by (auto simp: AudioInput_new_def AudioOutput_new_def NodePA_AudioIn_def NodePA_AudioOut_def
        NodePA_open_def sampleFormat_ok_def deviceId_ok_def on_def
        SampleFormat8Bit_def SampleFormat16Bit_def SampleFormat24Bit_def SampleFormat32Bit_def
        split: if_splits)

theorem construction_all_or_nothing_witness:
  "AudioInput_new [0, 1] (no_options\<lparr>sampleFormat := Some 12\<rparr>)
     = Inl (InvalidConfiguration ''sampleFormat'') \<and>
   AudioOutput_new [0, 1] (no_options\<lparr>sampleFormat := Some 12\<rparr>)
     = Inl (InvalidConfiguration ''sampleFormat'') \<and>
   AudioInput_new [0, 1] (no_options\<lparr>deviceId := Some 5\<rparr>)
     = Inl (InvalidConfiguration ''deviceId'') \<and>
   audio capture0 = \<lparr>config = no_options, calls = [], pending = []\<rparr> \<and>
   audio playback0 = \<lparr>config = no_options, calls = [], pending = []\<rparr>"
proof -
  have a: "AudioInput_new [] no_options = Inr capture0"
    and b: "AudioOutput_new [] no_options = Inr playback0"
    by (simp_all add: fresh_defs)
  have "AudioInput_new [0, 1] (no_options\<lparr>sampleFormat := Some 12\<rparr>)
          = Inl (InvalidConfiguration ''sampleFormat'') \<and>
        AudioOutput_new [0, 1] (no_options\<lparr>sampleFormat := Some 12\<rparr>)
          = Inl (InvalidConfiguration ''sampleFormat'')"
    using construction_all_or_nothing
            [of "no_options\<lparr>sampleFormat := Some 12\<rparr>" 12 "[0, 1]" 5 capture0 playback0]
    by simp
  moreover have "AudioInput_new [0, 1] (no_options\<lparr>deviceId := Some 5\<rparr>)
          = Inl (InvalidConfiguration ''deviceId'')"
    by (simp add: fresh_defs)
  moreover have "audio capture0 = \<lparr>config = no_options, calls = [], pending = []\<rparr> \<and>
     audio playback0 = \<lparr>config = no_options, calls = [], pending = []\<rparr>"
    using construction_all_or_nothing [of no_options 0 "[]" 0 capture0 playback0] a b
    by simp
  ultimately show ?thesis by simp
qed

text \<open>
  C10, as the code has it. \<^verbatim>\<open>quit\<close> with a callback that is not a function (undefined
  when omitted) still hands the binding its quit request, and the completion of that
  request throws nothing and calls nothing, on either adapter; the handler of \<^verbatim>\<open>quit\<close>
  never throws, and calls the callback when it is a function. \<^verbatim>\<open>write\<close> with no
  callback (undefined) hands the binding the no-op arrow, whose completion changes
  nothing; any other value is handed on as it is. So the binding receives a callable
  completion from \<^verbatim>\<open>write\<close> when the callback is undefined or a function, and the
  completion then never throws; a value that is neither reaches the binding as it is,
  and calling it throws.
\<close>

theorem optional_callbacks_safe:
  "(typeof cb \<noteq> ''function'' \<longrightarrow>
      in_run [InQuit cb, InComplete (length (pending (audio s))) err buf] s
        = Inr (s\<lparr>audio := (audio s)\<lparr>calls := calls (audio s) @ [EQuit (QuitArrow cb)]\<rparr>\<rparr>) \<and>
      out_run [OutQuit cb, OutComplete (length (pending (audio s))) err buf] s
        = Inr (s\<lparr>audio := (audio s)\<lparr>calls := calls (audio s) @ [EQuit (QuitArrow cb)]\<rparr>\<rparr>)) \<and>
   call_handler (QuitArrow (JFunction k)) err buf s = Inr (s\<lparr>invoked := invoked s @ [k]\<rparr>) \<and>
   (\<exists>s'. call_handler (QuitArrow cb) err buf s = Inr s') \<and>
   out_run [Push chunk encoding JUndefined, OutComplete (length (pending (audio s))) err buf] s
     = Inr (s\<lparr>audio := (audio s)\<lparr>calls := calls (audio s) @ [EWrite chunk NoopArrow]\<rparr>\<rparr>) \<and>
   (cb \<noteq> JUndefined \<longrightarrow>
      calls (audio (snd (AudioOutput_write chunk encoding cb s)))
        = calls (audio s) @ [EWrite chunk (Passed cb)]) \<and>
   (cb = JUndefined \<or> typeof cb = ''function'' \<longrightarrow>
      (\<exists>s'. out_run [Push chunk encoding cb, OutComplete (length (pending (audio s))) err buf] s
              = Inr s')) \<and>
   (cb \<noteq> JUndefined \<and> typeof cb \<noteq> ''function'' \<longrightarrow>
      out_run [Push chunk encoding cb, OutComplete (length (pending (audio s))) err buf] s
        = Inl TypeError)"
proof -
  have 1: "typeof cb \<noteq> ''function'' \<Longrightarrow>
      in_run [InQuit cb, InComplete (length (pending (audio s))) err buf] s
        = Inr (s\<lparr>audio := (audio s)\<lparr>calls := calls (audio s) @ [EQuit (QuitArrow cb)]\<rparr>\<rparr>)"
    by (simp add: AudioInput_quit_def engine_quit_def complete_def engine_complete_def)
  have 2: "typeof cb \<noteq> ''function'' \<Longrightarrow>
      out_run [OutQuit cb, OutComplete (length (pending (audio s))) err buf] s
        = Inr (s\<lparr>audio := (audio s)\<lparr>calls := calls (audio s) @ [EQuit (QuitArrow cb)]\<rparr>\<rparr>)"
    by (simp add: AudioOutput_quit_def engine_quit_def complete_def engine_complete_def)
  have 3: "\<exists>s'. call_handler (QuitArrow cb) err buf s = Inr s'"
    by (cases cb) simp_all
  have 4: "out_run [Push chunk encoding JUndefined, OutComplete (length (pending (audio s))) err buf] s
     = Inr (s\<lparr>audio := (audio s)\<lparr>calls := calls (audio s) @ [EWrite chunk NoopArrow]\<rparr>\<rparr>)"
    by (simp add: AudioOutput_write_def engine_write_def complete_def engine_complete_def)
  have 5: "cb = JUndefined \<or> typeof cb = ''function'' \<Longrightarrow>
      \<exists>s'. out_run [Push chunk encoding cb, OutComplete (length (pending (audio s))) err buf] s
              = Inr s'"
    by (cases cb)
       (simp_all add: AudioOutput_write_def engine_write_def complete_def engine_complete_def)
  have 6: "cb \<noteq> JUndefined \<Longrightarrow>
      calls (audio (snd (AudioOutput_write chunk encoding cb s)))
        = calls (audio s) @ [EWrite chunk (Passed cb)]"
    by (simp add: AudioOutput_write_def engine_write_def)
  have 7: "cb \<noteq> JUndefined \<Longrightarrow> typeof cb \<noteq> ''function'' \<Longrightarrow>
      out_run [Push chunk encoding cb, OutComplete (length (pending (audio s))) err buf] s
        = Inl TypeError"
    by (cases cb)
       (simp_all add: AudioOutput_write_def engine_write_def complete_def engine_complete_def)
  from 1 2 3 4 5 6 7 show ?thesis by simp
qed

theorem optional_callbacks_safe_witness:
  "in_run [InQuit (JStr ''done''), InComplete 0 JNull []] capture0
     = Inr (capture0\<lparr>audio := (audio capture0)\<lparr>calls := [EQuit (QuitArrow (JStr ''done''))]\<rparr>\<rparr>) \<and>
   out_run [OutQuit JUndefined, OutComplete 0 JNull []] playback0
     = Inr (playback0\<lparr>audio := (audio playback0)\<lparr>calls := [EQuit (QuitArrow JUndefined)]\<rparr>\<rparr>) \<and>
   out_run [Push [7] JUndefined JUndefined, OutComplete 0 JNull []] playback0
     = Inr (playback0\<lparr>audio := (audio playback0)\<lparr>calls := [EWrite [7] NoopArrow]\<rparr>\<rparr>) \<and>
   out_run [Push [7] JUndefined (JStr ''done''), OutComplete 0 JNull []] playback0
     = Inl TypeError"
proof -
  have p: "pending (audio capture0) = []" "calls (audio capture0) = []"
    "pending (audio playback0) = []" "calls (audio playback0) = []"
    by (simp_all add: fresh_defs)
  show ?thesis
    using optional_callbacks_safe [of "JStr ''done''" capture0 JNull "[]" 0 "[7]" JUndefined]
      optional_callbacks_safe [of "JStr ''done''" playback0 JNull "[]" 0 "[7]" JUndefined]
      optional_callbacks_safe [of JUndefined playback0 JNull "[]" 0 "[7]" JUndefined]
    by (simp add: p)
qed

text \<open>
  C10, as stated, fails: on a fresh playback adapter, \<^verbatim>\<open>write\<close> with null as callback
  hands the binding null, not a function, and the completion of that write throws.
\<close>

theorem null_callback_passed_on:
  "calls (audio (snd (AudioOutput_write [7] JUndefined JNull playback0)))
     = [EWrite [7] (Passed JNull)] \<and>
   typeof JNull = ''object'' \<and>
   out_run [Push [7] JUndefined JNull, OutComplete 0 JNull []] playback0 = Inl TypeError"
  by (simp add: fresh_defs method_defs complete_def engine_complete_def)

end
